theory Spec2Isabelle
  imports Main "HOL-Library.Char_ord" "HOL-Library.Multiset" "HOL-Library.Sublist" "HOL-Library.Word"
begin

unbundle bit_operations_syntax

section \<open>Data model of Huffman.py\<close>

text \<open>
  Python exceptions that the modelled code can raise are values of \<open>error\<close>; a function
  that can raise returns \<open>error + 'a\<close> with \<open>Inl\<close> for the exception.
  \<open>EmptyInput\<close> is the named condition of the specification's error taxonomy; no
  statement of Huffman.py raises it.
\<close>

datatype error = IndexError | TypeError | AttributeError | KeyError | ValueError | RecursionError
  | EmptyInput

text \<open>
  \<^verbatim>\<open>Node = namedtuple('Node', ['count', 'letter', 'left', 'right'])\<close>.
  A child is \<open>None\<close> or a \<open>Node\<close>. Symbols are single characters; a text is a
  \<open>string\<close>. The field \<open>count\<close> is called \<open>node_count\<close> here.
\<close>

datatype node = Node (node_count: int) (letter: char) (left: "node option") (right: "node option")

text \<open>
  The order heapq uses on nodes is the order of Python tuples: the first position at
  which the two tuples are not \<open>==\<close> is compared with \<open><\<close>. Comparing \<open>None\<close>
  with a \<open>Node\<close> by \<open><\<close> raises TypeError.
\<close>

fun node_lt :: "node \<Rightarrow> node \<Rightarrow> error + bool"
  and opt_lt :: "node option \<Rightarrow> node option \<Rightarrow> error + bool" where
  "node_lt (Node c1 l1 a1 b1) (Node c2 l2 a2 b2) =
     (if c1 \<noteq> c2 then Inr (c1 < c2)
      else if l1 \<noteq> l2 then Inr (l1 < l2)
      else if a1 \<noteq> a2 then opt_lt a1 a2
      else if b1 \<noteq> b2 then opt_lt b1 b2
      else Inr False)"
| "opt_lt (Some x) (Some y) = node_lt x y"
| "opt_lt None y = Inl TypeError"
| "opt_lt x None = Inl TypeError"

section \<open>The heapq operations used by make_tree\<close>

text \<open>
  heapq is Python's standard library; the functions below follow its
  \<^verbatim>\<open>_siftdown\<close>, \<^verbatim>\<open>_siftup\<close>, \<^verbatim>\<open>heappush\<close>, \<^verbatim>\<open>heappop\<close> and \<^verbatim>\<open>heapify\<close>.
  The list is passed in and returned; a comparison that raises ends the operation.
\<close>

function siftdown_loop :: "node list \<Rightarrow> nat \<Rightarrow> nat \<Rightarrow> node \<Rightarrow> error + node list" where
  "siftdown_loop heap startpos pos newitem =
     (if pos > startpos then
        (case node_lt newitem (heap ! ((pos - 1) div 2)) of
           Inl e \<Rightarrow> Inl e
         | Inr b \<Rightarrow>
             if b then siftdown_loop (heap[pos := heap ! ((pos - 1) div 2)]) startpos ((pos - 1) div 2) newitem
             else Inr (heap[pos := newitem]))
      else Inr (heap[pos := newitem]))"
  by pat_completeness auto
termination
  by (relation "measure (\<lambda>(heap, startpos, pos, newitem). pos)") auto

declare siftdown_loop.simps [simp del]

definition siftdown :: "node list \<Rightarrow> nat \<Rightarrow> nat \<Rightarrow> error + node list" where
  "siftdown heap startpos pos =
     (if pos < length heap then siftdown_loop heap startpos pos (heap ! pos)
      else Inl IndexError)"

function siftup_loop :: "node list \<Rightarrow> nat \<Rightarrow> nat \<Rightarrow> error + (node list \<times> nat)" where
  "siftup_loop heap pos childpos =
     (if childpos < length heap then
        (case (if childpos + 1 < length heap
               then (case node_lt (heap ! childpos) (heap ! (childpos + 1)) of
                       Inl e \<Rightarrow> Inl e | Inr b \<Rightarrow> Inr (\<not> b))
               else Inr False) of
           Inl e \<Rightarrow> Inl e
         | Inr go_right \<Rightarrow>
             if go_right
             then siftup_loop (heap[pos := heap ! (childpos + 1)]) (childpos + 1) (2 * (childpos + 1) + 1)
             else siftup_loop (heap[pos := heap ! childpos]) childpos (2 * childpos + 1))
      else Inr (heap, pos))"
  by pat_completeness auto
termination
  by (relation "measure (\<lambda>(heap, pos, childpos). length heap - childpos)") auto

declare siftup_loop.simps [simp del]

definition siftup :: "node list \<Rightarrow> nat \<Rightarrow> error + node list" where
  "siftup heap pos =
     (if pos < length heap then
        (case siftup_loop heap pos (2 * pos + 1) of
           Inl e \<Rightarrow> Inl e
         | Inr (heap', pos') \<Rightarrow> siftdown (heap'[pos' := heap ! pos]) pos pos')
      else Inl IndexError)"

definition heappush :: "node list \<Rightarrow> node \<Rightarrow> error + node list" where
  "heappush heap item = siftdown (heap @ [item]) 0 (length heap)"

definition heappop :: "node list \<Rightarrow> error + (node \<times> node list)" where
  "heappop heap =
     (if heap = [] then Inl IndexError
      else if butlast heap \<noteq> [] then
        (case siftup ((butlast heap)[0 := last heap]) 0 of
           Inl e \<Rightarrow> Inl e
         | Inr heap' \<Rightarrow> Inr (hd heap, heap'))
      else Inr (last heap, []))"

fun heapify_loop :: "node list \<Rightarrow> nat list \<Rightarrow> error + node list" where
  "heapify_loop x [] = Inr x"
| "heapify_loop x (i # rest) =
     (case siftup x i of Inl e \<Rightarrow> Inl e | Inr x' \<Rightarrow> heapify_loop x' rest)"

definition heapify :: "node list \<Rightarrow> error + node list" where
  "heapify x = heapify_loop x (rev [0 ..< length x div 2])"

lemma siftdown_loop_length:
  "siftdown_loop heap startpos pos newitem = Inr h \<Longrightarrow> length h = length heap"
proof (induction heap startpos pos newitem rule: siftdown_loop.induct)
  case (1 heap startpos pos newitem)
  show ?case
    using "1.prems" "1.IH"
    by (subst (asm) siftdown_loop.simps) (auto split: if_splits sum.splits)
qed

lemma siftup_loop_length:
  "siftup_loop heap pos childpos = Inr (h, p) \<Longrightarrow> length h = length heap"
proof (induction heap pos childpos rule: siftup_loop.induct)
  case (1 heap pos childpos)
  show ?case
    using "1.prems" "1.IH"
    by (subst (asm) siftup_loop.simps) (auto split: if_splits sum.splits)
qed

lemma siftdown_length: "siftdown heap startpos pos = Inr h \<Longrightarrow> length h = length heap"
  by (auto simp: siftdown_def dest: siftdown_loop_length split: if_splits)

lemma siftup_length: "siftup heap pos = Inr h \<Longrightarrow> length h = length heap"
  by (auto simp: siftup_def dest!: siftdown_length siftup_loop_length split: if_splits sum.splits)

lemma heappush_length: "heappush heap item = Inr h \<Longrightarrow> length h = Suc (length heap)"
  by (auto simp: heappush_def dest: siftdown_length)

lemma heappop_length: "heappop heap = Inr (x, h) \<Longrightarrow> Suc (length h) = length heap"
  by (cases heap rule: rev_cases)
    (auto simp: heappop_def dest!: siftup_length split: if_splits sum.splits)

section \<open>make_tree, make_table, encode, decode\<close>

text \<open>
  \<^verbatim>\<open>make_tree(heap)\<close>: while the heap has more than one node, pop two, push their
  parent (letter \<^verbatim>\<open>'\0'\<close>, count the sum); then pop the root. \<^verbatim>\<open>heappop\<close> on the
  empty list raises IndexError.
\<close>

function make_tree :: "node list \<Rightarrow> error + node" where
  "make_tree heap =
     (if length heap > 1 then
        (case heappop heap of
           Inl e \<Rightarrow> Inl e
         | Inr (l, h1) \<Rightarrow>
             (case heappop h1 of
                Inl e \<Rightarrow> Inl e
              | Inr (r, h2) \<Rightarrow>
                  (case heappush h2 (Node (node_count l + node_count r) (CHR 0x00) (Some l) (Some r)) of
                     Inl e \<Rightarrow> Inl e
                   | Inr h3 \<Rightarrow> make_tree h3)))
      else (case heappop heap of Inl e \<Rightarrow> Inl e | Inr (root, rest) \<Rightarrow> Inr root))"
  by pat_completeness auto
termination
proof (relation "measure length")
  fix heap :: "node list" and x l h1 y r h2 h3
  assume "heappop heap = Inr x" "(l, h1) = x" "heappop h1 = Inr y" "(r, h2) = y"
    and "heappush h2 (Node (node_count l + node_count r) (CHR 0x00) (Some l) (Some r)) = Inr h3"
  then show "(h3, heap) \<in> measure length"
    using heappop_length [of heap l h1] heappop_length [of h1 r h2]
      heappush_length [of h2 _ h3] by auto
qed simp

declare make_tree.simps [simp del]

definition is_leaf :: "node \<Rightarrow> bool" where
  "is_leaf n = (left n = None \<and> right n = None)"

text \<open>The table is a dict from letter to code; the recursion returns the updated dict.\<close>

fun make_table_recursive :: "node option \<Rightarrow> string \<Rightarrow> (char \<rightharpoonup> string) \<Rightarrow> (char \<rightharpoonup> string)" where
  "make_table_recursive None path table = table"
| "make_table_recursive (Some (Node c l a b)) path table =
     (if is_leaf (Node c l a b) then table(l \<mapsto> path)
      else make_table_recursive b (path @ ''1'') (make_table_recursive a (path @ ''0'') table))"

definition make_table :: "node \<Rightarrow> (char \<rightharpoonup> string)" where
  "make_table root = make_table_recursive (Some root) [] Map.empty"

text \<open>
  \<^verbatim>\<open>Counter(text)\<close> is a dict in order of first occurrence; \<^verbatim>\<open>c.items()\<close> lists it
  in that order.
\<close>

fun count_elem :: "char \<Rightarrow> (char \<times> int) list \<Rightarrow> (char \<times> int) list" where
  "count_elem x [] = [(x, 1)]"
| "count_elem x ((k, v) # kvs) = (if k = x then (k, v + 1) # kvs else (k, v) # count_elem x kvs)"

definition Counter :: "string \<Rightarrow> (char \<times> int) list" where
  "Counter text = foldl (\<lambda>c x. count_elem x c) [] text"

text \<open>\<^verbatim>\<open>[table[c] for c in text]\<close>: a missing key raises KeyError.\<close>

fun lookup_all :: "(char \<rightharpoonup> string) \<Rightarrow> string \<Rightarrow> error + string list" where
  "lookup_all table [] = Inr []"
| "lookup_all table (c # cs) =
     (case table c of
        None \<Rightarrow> Inl KeyError
      | Some code \<Rightarrow>
          (case lookup_all table cs of Inl e \<Rightarrow> Inl e | Inr codes \<Rightarrow> Inr (code # codes)))"

definition encode :: "string \<Rightarrow> error + (string \<times> node)" where
  "encode text =
     (case heapify (map (\<lambda>(letter, count). Node count letter None None) (Counter text)) of
        Inl e \<Rightarrow> Inl e
      | Inr heap \<Rightarrow>
          (case make_tree heap of
             Inl e \<Rightarrow> Inl e
           | Inr root \<Rightarrow>
               (case lookup_all (make_table root) text of
                  Inl e \<Rightarrow> Inl e
                | Inr codes \<Rightarrow> Inr (concat codes, root))))"

text \<open>
  \<^verbatim>\<open>decode(code, tree)\<close>: the loop state is the current node and the result list.
  Stepping to an absent child makes \<^verbatim>\<open>is_leaf(None)\<close> raise AttributeError.
\<close>

fun decode_loop :: "node \<Rightarrow> node \<Rightarrow> string \<Rightarrow> string \<Rightarrow> error + string" where
  "decode_loop tree n [] result = Inr result"
| "decode_loop tree n (c # cs) result =
     (case (if c = CHR ''0'' then left n else right n) of
        None \<Rightarrow> Inl AttributeError
      | Some n' \<Rightarrow>
          if is_leaf n' then decode_loop tree tree cs (result @ [letter n'])
          else decode_loop tree n' cs result)"

definition decode :: "string \<Rightarrow> node \<Rightarrow> error + string" where
  "decode code tree = decode_loop tree tree code []"

section \<open>Tree serialisation\<close>

text \<open>
  The values \<^verbatim>\<open>json.load\<close> returns and \<^verbatim>\<open>json.dump\<close> accepts. A Python
  \<^verbatim>\<open>str\<close> held in a tree is the same value as a JSON string, so the letter of a
  CompressNode is a \<open>json\<close> value. Numbers are integers here.
\<close>

datatype json = JNull | JBool bool | JNum int | JStr string | JList "json list"
  | JObj "(string \<times> json) list"

text \<open>\<^verbatim>\<open>CompressNode = namedtuple('CompressNode', ['letter', 'left', 'right'])\<close>\<close>

datatype cnode = CompressNode (cletter: json) (cleft: "cnode option") (cright: "cnode option")

text \<open>
  \<^verbatim>\<open>tree_for_compression\<close> reads only \<^verbatim>\<open>.letter\<close>, \<^verbatim>\<open>.left\<close> and \<^verbatim>\<open>.right\<close>,
  so it accepts a Node and a CompressNode alike; the two instances are
  \<open>tree_for_compression\<close> (on a Node) and \<open>tree_for_compression_cn\<close> (on a
  CompressNode). A namedtuple with fields is truthy, so a present child is always
  converted.
\<close>

fun tree_for_compression :: "node \<Rightarrow> cnode" where
  "tree_for_compression (Node c l a b) =
     CompressNode (JStr [l])
       (case a of None \<Rightarrow> None | Some x \<Rightarrow> Some (tree_for_compression x))
       (case b of None \<Rightarrow> None | Some x \<Rightarrow> Some (tree_for_compression x))"


text \<open>\<^verbatim>\<open>json.dump\<close> writes a namedtuple as an array and \<^verbatim>\<open>None\<close> as null.\<close>

fun json_dump :: "cnode \<Rightarrow> json" where
  "json_dump (CompressNode l a b) =
     JList [l,
       (case a of None \<Rightarrow> JNull | Some x \<Rightarrow> json_dump x),
       (case b of None \<Rightarrow> JNull | Some x \<Rightarrow> json_dump x)]"

text \<open>
  \<^verbatim>\<open>l[i]\<close> on a parsed JSON value: a list or a string is indexed (IndexError out of
  range), an object has no key \<open>i\<close> (KeyError), the other values are not subscriptable
  (TypeError). \<^verbatim>\<open>if l[i]\<close> tests Python truthiness.
\<close>

fun subscript :: "json \<Rightarrow> nat \<Rightarrow> error + json" where
  "subscript (JList xs) i = (if i < length xs then Inr (xs ! i) else Inl IndexError)"
| "subscript (JStr s) i = (if i < length s then Inr (JStr [s ! i]) else Inl IndexError)"
| "subscript (JObj kvs) i = Inl KeyError"
| "subscript JNull i = Inl TypeError"
| "subscript (JBool b) i = Inl TypeError"
| "subscript (JNum n) i = Inl TypeError"

fun truthy :: "json \<Rightarrow> bool" where
  "truthy JNull = False"
| "truthy (JBool b) = b"
| "truthy (JNum n) = (n \<noteq> 0)"
| "truthy (JStr s) = (s \<noteq> [])"
| "truthy (JList xs) = (xs \<noteq> [])"
| "truthy (JObj kvs) = (kvs \<noteq> [])"

fun json_weight :: "json \<Rightarrow> nat" where
  "json_weight (JStr s) = length s"
| "json_weight (JList xs) = Suc (sum_list (map json_weight xs))"
| "json_weight JNull = 0"
| "json_weight (JBool b) = 0"
| "json_weight (JNum n) = 0"
| "json_weight (JObj kvs) = 0"

lemma subscript_weight: "subscript l i = Inr x \<Longrightarrow> 0 < i \<Longrightarrow> json_weight x < json_weight l"
proof (cases l)
  case (JList xs)
  assume "subscript l i = Inr x"
  with JList have "x \<in> set xs" by (auto split: if_splits)
  then have "json_weight x \<le> sum_list (map json_weight xs)"
    by (simp add: member_le_sum_list)
  with JList show ?thesis by simp
qed (auto split: if_splits)

function list_to_tree :: "json \<Rightarrow> error + cnode" where
  "list_to_tree l =
     (case subscript l 0 of
        Inl e \<Rightarrow> Inl e
      | Inr letter' \<Rightarrow>
          (case subscript l 1 of
             Inl e \<Rightarrow> Inl e
           | Inr l1 \<Rightarrow>
               (case (if truthy l1
                      then (case list_to_tree l1 of Inl e \<Rightarrow> Inl e | Inr t \<Rightarrow> Inr (Some t))
                      else Inr None) of
                  Inl e \<Rightarrow> Inl e
                | Inr left' \<Rightarrow>
                    (case subscript l 2 of
                       Inl e \<Rightarrow> Inl e
                     | Inr l2 \<Rightarrow>
                         (case (if truthy l2
                                then (case list_to_tree l2 of Inl e \<Rightarrow> Inl e | Inr t \<Rightarrow> Inr (Some t))
                                else Inr None) of
                            Inl e \<Rightarrow> Inl e
                          | Inr right' \<Rightarrow> Inr (CompressNode letter' left' right'))))))"
  by pat_completeness auto
termination
  by (relation "measure json_weight") (auto dest: subscript_weight)

declare list_to_tree.simps [simp del]

text \<open>
  \<open>list_to_tree\<close> above is the recursion on a call stack deep enough for its argument.
  Python bounds the depth of the call stack (the recursion limit, 1000 unless changed),
  and \<^verbatim>\<open>list_to_tree\<close> uses one frame for each level of nesting.
  \<open>list_to_tree_frames k\<close> is the same function called when the interpreter allows
  \<open>k\<close> more frames: the call that would exceed them raises RecursionError.
\<close>

fun list_to_tree_frames :: "nat \<Rightarrow> json \<Rightarrow> error + cnode" where
  "list_to_tree_frames 0 l = Inl RecursionError"
| "list_to_tree_frames (Suc k) l =
     (case subscript l 0 of
        Inl e \<Rightarrow> Inl e
      | Inr letter' \<Rightarrow>
          (case subscript l 1 of
             Inl e \<Rightarrow> Inl e
           | Inr l1 \<Rightarrow>
               (case (if truthy l1
                      then (case list_to_tree_frames k l1 of Inl e \<Rightarrow> Inl e | Inr t \<Rightarrow> Inr (Some t))
                      else Inr None) of
                  Inl e \<Rightarrow> Inl e
                | Inr left' \<Rightarrow>
                    (case subscript l 2 of
                       Inl e \<Rightarrow> Inl e
                     | Inr l2 \<Rightarrow>
                         (case (if truthy l2
                                then (case list_to_tree_frames k l2 of Inl e \<Rightarrow> Inl e | Inr t \<Rightarrow> Inr (Some t))
                                else Inr None) of
                            Inl e \<Rightarrow> Inl e
                          | Inr right' \<Rightarrow> Inr (CompressNode letter' left' right'))))))"

text \<open>
  \<^verbatim>\<open>decode\<close> and \<^verbatim>\<open>is_leaf\<close> applied to a CompressNode tree, as
  \<^verbatim>\<open>decode_from_files\<close> does. The letters collected may be any JSON value;
  \<^verbatim>\<open>''.join(result)\<close> raises TypeError unless every one is a string.
\<close>

definition is_leaf_cn :: "cnode \<Rightarrow> bool" where
  "is_leaf_cn n = (cleft n = None \<and> cright n = None)"

fun decode_loop_cn :: "cnode \<Rightarrow> cnode \<Rightarrow> string \<Rightarrow> json list \<Rightarrow> error + json list" where
  "decode_loop_cn tree n [] result = Inr result"
| "decode_loop_cn tree n (c # cs) result =
     (case (if c = CHR ''0'' then cleft n else cright n) of
        None \<Rightarrow> Inl AttributeError
      | Some n' \<Rightarrow>
          if is_leaf_cn n' then decode_loop_cn tree tree cs (result @ [cletter n'])
          else decode_loop_cn tree n' cs result)"

fun join :: "json list \<Rightarrow> error + string" where
  "join [] = Inr []"
| "join (JStr s # rest) = (case join rest of Inl e \<Rightarrow> Inl e | Inr r \<Rightarrow> Inr (s @ r))"
| "join (x # rest) = Inl TypeError"

definition decode_cn :: "string \<Rightarrow> cnode \<Rightarrow> error + string" where
  "decode_cn code tree =
     (case decode_loop_cn tree tree code [] of Inl e \<Rightarrow> Inl e | Inr result \<Rightarrow> join result)"

section \<open>Packing to and from the code file\<close>

text \<open>
  \<^verbatim>\<open>int(s, 2)\<close> on a string of binary digits; the empty string raises ValueError.
  The strings that reach it in \<^verbatim>\<open>encode_to_files\<close> are slices of the code, made
  of \<^verbatim>\<open>'0'\<close> and \<^verbatim>\<open>'1'\<close>; any other character is rejected here.
\<close>

definition int2 :: "string \<Rightarrow> error + nat" where
  "int2 s =
     (if s = [] \<or> list_ex (\<lambda>c. c \<noteq> CHR ''0'' \<and> c \<noteq> CHR ''1'') s then Inl ValueError
      else Inr (foldl (\<lambda>v c. 2 * v + (if c = CHR ''1'' then 1 else 0)) 0 s))"

text \<open>\<^verbatim>\<open>xs[a:b]\<close> for \<open>0 \<le> a\<close>, \<open>0 \<le> b\<close>, and \<^verbatim>\<open>xs[-k:]\<close> for \<open>0 \<le> k\<close>.\<close>

definition slice_between :: "'a list \<Rightarrow> nat \<Rightarrow> nat \<Rightarrow> 'a list" where
  "slice_between xs a b = take (b - a) (drop a xs)"

definition slice_from_neg :: "'a list \<Rightarrow> nat \<Rightarrow> 'a list" where
  "slice_from_neg xs k = (if k = 0 then xs else drop (length xs - k) xs)"

text \<open>\<^verbatim>\<open>bytes(data)\<close> raises ValueError for a value outside \<open>range(256)\<close>.\<close>

definition bytes :: "nat list \<Rightarrow> error + 8 word list" where
  "bytes data = (if list_all (\<lambda>x. x < 256) data then Inr (map of_nat data) else Inl ValueError)"

fun pack_loop :: "string \<Rightarrow> nat \<Rightarrow> nat list \<Rightarrow> error + nat list" where
  "pack_loop code prefix_len [] = Inr []"
| "pack_loop code prefix_len (i # rest) =
     (case int2 (slice_between code (prefix_len + 8 * i) (prefix_len + 8 * (i + 1))) of
        Inl e \<Rightarrow> Inl e
      | Inr v \<Rightarrow>
          (case pack_loop code prefix_len rest of Inl e \<Rightarrow> Inl e | Inr data \<Rightarrow> Inr (v # data)))"

text \<open>
  \<^verbatim>\<open>encode_to_files\<close> returns the contents written to the code file and to the tree
  file.
\<close>

definition encode_to_files :: "string \<Rightarrow> error + (8 word list \<times> json)" where
  "encode_to_files text =
     (case encode text of
        Inl e \<Rightarrow> Inl e
      | Inr (code, tree) \<Rightarrow>
          (case pack_loop code (length code mod 8) [0 ..< length code div 8] of
             Inl e \<Rightarrow> Inl e
           | Inr data \<Rightarrow>
               (case int2 (slice_between code 0 (length code mod 8)) of
                  Inl e \<Rightarrow> Inl e
                | Inr p \<Rightarrow>
                    (case bytes ([length code mod 8, p] @ data) of
                       Inl e \<Rightarrow> Inl e
                     | Inr bts \<Rightarrow> Inr (bts, json_dump (tree_for_compression tree))))))"

definition byte_to_bits :: "8 word \<Rightarrow> string" where
  "byte_to_bits byte =
     map (\<lambda>n. if byte AND push_bit (7 - n) 1 \<noteq> 0 then CHR ''1'' else CHR ''0'') [0 ..< 8]"

text \<open>
  The bit string \<^verbatim>\<open>decode_from_files\<close> rebuilds from the code file:
  \<^verbatim>\<open>bts[0]\<close> and \<^verbatim>\<open>codes[0]\<close> raise IndexError when absent.
\<close>

definition unpack_code :: "8 word list \<Rightarrow> error + string" where
  "unpack_code bts =
     (case bts of
        [] \<Rightarrow> Inl IndexError
      | b0 # rest \<Rightarrow>
          (case map byte_to_bits rest of
             [] \<Rightarrow> Inl IndexError
           | c0 # codes \<Rightarrow> Inr (concat (slice_from_neg c0 (unat b0) # codes))))"

definition decode_from_files :: "8 word list \<Rightarrow> json \<Rightarrow> error + string" where
  "decode_from_files codefile treefile =
     (case list_to_tree treefile of
        Inl e \<Rightarrow> Inl e
      | Inr tree \<Rightarrow>
          (case unpack_code codefile of
             Inl e \<Rightarrow> Inl e
           | Inr code \<Rightarrow> decode_cn code tree))"

section \<open>Notions used to state the properties\<close>

text \<open>
  The leaves below a node, each with the path that \<^verbatim>\<open>make_table_recursive\<close> has
  accumulated when it reaches the leaf, in the order of the traversal.
\<close>

fun leaf_codes :: "node option \<Rightarrow> string \<Rightarrow> (char \<times> string) list" where
  "leaf_codes None path = []"
| "leaf_codes (Some (Node c l a b)) path =
     (if is_leaf (Node c l a b) then [(l, path)]
      else leaf_codes a (path @ ''0'') @ leaf_codes b (path @ ''1''))"



text \<open>
  The depth to which arrays are nested in a JSON value, and the chain of \<open>n\<close> nodes,
  each the left child of the one before, above a leaf: a value of the nested 3-element
  form of depth \<open>n + 1\<close>.
\<close>

fun json_depth :: "json \<Rightarrow> nat" where
  "json_depth (JList xs) = Suc (foldr max (map json_depth xs) 0)"
| "json_depth JNull = 0"
| "json_depth (JBool b) = 0"
| "json_depth (JNum n) = 0"
| "json_depth (JStr s) = 0"
| "json_depth (JObj kvs) = 0"



text \<open>
  Notions for the proof that \<^verbatim>\<open>encode\<close> returns. A set of nodes is comparable when
  \<open><\<close> raises on no pair of its members. The letters at the leaves below a node, in
  the order of the traversal. A node is proper when it is a leaf whose letter is not
  \<^verbatim>\<open>'\0'\<close> or has letter \<^verbatim>\<open>'\0'\<close> and two proper children. A list of nodes is a
  forest when its nodes are distinct and proper and no letter occurs below two of them.
\<close>

definition comparable :: "node set \<Rightarrow> bool" where
  "comparable S = (\<forall>x\<in>S. \<forall>y\<in>S. \<exists>b. node_lt x y = Inr b)"


fun leaf_letters :: "node option \<Rightarrow> char list" where
  "leaf_letters None = []"
| "leaf_letters (Some (Node c l a b)) =
     (if is_leaf (Node c l a b) then [l] else leaf_letters a @ leaf_letters b)"

fun proper :: "node \<Rightarrow> bool" where
  "proper (Node c l None None) = (l \<noteq> CHR 0x00)"
| "proper (Node c l (Some x) (Some y)) = (l = CHR 0x00 \<and> proper x \<and> proper y)"
| "proper (Node c l None (Some y)) = False"
| "proper (Node c l (Some x) None) = False"

definition forest_ok :: "node list \<Rightarrow> bool" where
  "forest_ok H = (distinct H \<and> (\<forall>x\<in>set H. proper x) \<and>
     (\<forall>x\<in>set H. \<forall>y\<in>set H. x \<noteq> y \<longrightarrow>
        set (leaf_letters (Some x)) \<inter> set (leaf_letters (Some y)) = {}))"


definition forest_letters :: "node list \<Rightarrow> char set" where
  "forest_letters H = (\<Union>x\<in>set H. set (leaf_letters (Some x)))"


text \<open>
  The value of a string of binary digits read most significant bit first, and the
  strings made of \<^verbatim>\<open>'0'\<close> and \<^verbatim>\<open>'1'\<close> only.
\<close>

definition bits_value :: "string \<Rightarrow> nat" where
  "bits_value s = foldl (\<lambda>v c. 2 * v + (if c = CHR ''1'' then 1 else 0)) 0 s"

definition is_bits :: "string \<Rightarrow> bool" where
  "is_bits s = list_all (\<lambda>c. c = CHR ''0'' \<or> c = CHR ''1'') s"








section \<open>The code table and the tree walk\<close>

lemma make_table_recursive_eq:
  "make_table_recursive t path table = table ++ map_of (rev (leaf_codes t path))"
proof (induction t path table rule: make_table_recursive.induct)
  case (2 c l a b path table)
  show ?case
  proof (cases "is_leaf (Node c l a b)")
    case True
    then show ?thesis by (auto simp: map_add_def fun_eq_iff)
  next
    case False
    with 2 show ?thesis by (simp add: map_add_assoc)
  qed
qed simp

lemma make_table_SomeD:
  "make_table root c = Some code \<Longrightarrow> (c, code) \<in> set (leaf_codes (Some root) [])"
  by (auto simp: make_table_def make_table_recursive_eq dest: map_of_SomeD)

lemma leaf_codes_prefix: "(l, code) \<in> set (leaf_codes t path) \<Longrightarrow> prefix path code"
proof (induction t path rule: leaf_codes.induct)
  case (2 c l' a b path)
  show ?case
  proof (cases "is_leaf (Node c l' a b)")
    case True
    with 2 show ?thesis by simp
  next
    case False
    with "2.prems" have "(l, code) \<in> set (leaf_codes a (path @ ''0'')) \<or> (l, code) \<in> set (leaf_codes b (path @ ''1''))"
      by simp
    with "2.IH" False have "prefix (path @ ''0'') code \<or> prefix (path @ ''1'') code" by blast
    then show ?thesis using append_prefixD by blast
  qed
qed simp

lemma prefix_snoc_same: "prefix (path @ [u]) c \<Longrightarrow> prefix (path @ [v]) c \<Longrightarrow> u = v"
  by (auto simp: prefix_def)

lemma leaf_codes_prefix_free:
  "(x, cx) \<in> set (leaf_codes t path) \<Longrightarrow> (y, cy) \<in> set (leaf_codes t path) \<Longrightarrow>
   prefix cx cy \<Longrightarrow> x = y"
proof (induction t path rule: leaf_codes.induct)
  case (2 c l a b path)
  show ?case
  proof (cases "is_leaf (Node c l a b)")
    case True
    with "2.prems"(1,2) show ?thesis by simp
  next
    case False
    have cross: False
      if "(x, cx) \<in> set (leaf_codes t1 (path @ [u]))" "(y, cy) \<in> set (leaf_codes t2 (path @ [v]))" "u \<noteq> v"
      for u v t1 t2
    proof -
      have pu: "prefix (path @ [u]) cx" using that(1) by (rule leaf_codes_prefix)
      have pv: "prefix (path @ [v]) cy" using that(2) by (rule leaf_codes_prefix)
      from pu "2.prems"(3) have "prefix (path @ [u]) cy" by (rule prefix_order.trans)
      from this pv have "u = v" by (rule prefix_snoc_same)
      with that(3) show False by simp
    qed
    from False "2.prems"(1) have X:
      "(x, cx) \<in> set (leaf_codes a (path @ ''0'')) \<or> (x, cx) \<in> set (leaf_codes b (path @ ''1''))"
      by simp
    from False "2.prems"(2) have Y:
      "(y, cy) \<in> set (leaf_codes a (path @ ''0'')) \<or> (y, cy) \<in> set (leaf_codes b (path @ ''1''))"
      by simp
    from X show ?thesis
    proof
      assume x: "(x, cx) \<in> set (leaf_codes a (path @ ''0''))"
      from Y show ?thesis
      proof
        assume "(y, cy) \<in> set (leaf_codes a (path @ ''0''))"
        with x show ?thesis using "2.IH"(1) [OF False] "2.prems"(3) by simp
      next
        assume "(y, cy) \<in> set (leaf_codes b (path @ ''1''))"
        with x show ?thesis using cross [of a "CHR ''0''" b "CHR ''1''"] by simp
      qed
    next
      assume x: "(x, cx) \<in> set (leaf_codes b (path @ ''1''))"
      from Y show ?thesis
      proof
        assume "(y, cy) \<in> set (leaf_codes b (path @ ''1''))"
        with x show ?thesis using "2.IH"(2) [OF False] "2.prems"(3) by simp
      next
        assume "(y, cy) \<in> set (leaf_codes a (path @ ''0''))"
        with x show ?thesis using cross [of b "CHR ''1''" a "CHR ''0''"] by simp
      qed
    qed
  qed
qed simp


lemma leaf_codes_leaf: "is_leaf n \<Longrightarrow> leaf_codes (Some n) path = [(letter n, path)]"
  by (cases n) simp

lemma leaf_codes_inner:
  "\<not> is_leaf n \<Longrightarrow> leaf_codes (Some n) path = leaf_codes (left n) (path @ ''0'') @ leaf_codes (right n) (path @ ''1'')"
  by (cases n) simp

lemma decode_loop_leaf:
  "(l, code) \<in> set (leaf_codes (Some n) path) \<Longrightarrow> \<not> is_leaf n \<Longrightarrow>
   decode_loop root n (drop (length path) code @ rest) acc = decode_loop root root rest (acc @ [l])"
proof (induction n arbitrary: path)
  case (Node c l' a b)
  let ?n = "Node c l' a b"
  have step: "decode_loop root ?n (drop (length path) code @ rest) acc = decode_loop root root rest (acc @ [l])"
    if mem: "(l, code) \<in> set (leaf_codes t (path @ [u]))"
      and child: "(if u = CHR ''0'' then left ?n else right ?n) = t"
      and ih: "\<And>x p. t = Some x \<Longrightarrow> (l, code) \<in> set (leaf_codes (Some x) p) \<Longrightarrow> \<not> is_leaf x \<Longrightarrow>
                decode_loop root x (drop (length p) code @ rest) acc = decode_loop root root rest (acc @ [l])"
    for t u
  proof -
    from mem obtain x where t: "t = Some x" by (cases t) auto
    from mem have "prefix (path @ [u]) code" by (rule leaf_codes_prefix)
    then obtain s where code: "code = path @ u # s" by (auto simp: prefix_def)
    show ?thesis
    proof (cases "is_leaf x")
      case True
      with mem t code have "l = letter x" "s = []" by (auto simp: leaf_codes_leaf)
      with True t child code show ?thesis by (auto split: if_splits)
    next
      case False
      have "decode_loop root x (drop (length (path @ [u])) code @ rest) acc = decode_loop root root rest (acc @ [l])"
        using ih [OF t] mem t False by blast
      with False t child code show ?thesis by (auto split: if_splits)
    qed
  qed
  from Node.prems have
    "(l, code) \<in> set (leaf_codes a (path @ ''0'')) \<or> (l, code) \<in> set (leaf_codes b (path @ ''1''))"
    by (auto split: if_splits)
  then show ?case
  proof
    assume "(l, code) \<in> set (leaf_codes a (path @ ''0''))"
    then show ?thesis
      using step [of a "CHR ''0''"] Node.IH(1) by auto
  next
    assume "(l, code) \<in> set (leaf_codes b (path @ ''1''))"
    then show ?thesis
      using step [of b "CHR ''1''"] Node.IH(2) by auto
  qed
qed

lemma decode_loop_lookup_all:
  "lookup_all (make_table root) text = Inr codes \<Longrightarrow> \<not> is_leaf root \<Longrightarrow>
   decode_loop root root (concat codes) acc = Inr (acc @ text)"
proof (induction "text" arbitrary: codes acc)
  case Nil
  then show ?case by simp
next
  case (Cons c cs)
  from Cons.prems(1) obtain code codes' where
    c: "make_table root c = Some code" and cs: "lookup_all (make_table root) cs = Inr codes'"
    and codes: "codes = code # codes'"
    by (auto split: option.splits sum.splits)
  from c have "(c, code) \<in> set (leaf_codes (Some root) [])" by (rule make_table_SomeD)
  then have "decode_loop root root (drop (length ([]::string)) code @ concat codes') acc
      = decode_loop root root (concat codes') (acc @ [c])"
    using Cons.prems(2) by (rule decode_loop_leaf)
  with Cons.IH [OF cs Cons.prems(2), of "acc @ [c]"] codes show ?case by simp
qed

lemma lookup_all_dom: "lookup_all table text = Inr codes \<Longrightarrow> set text \<subseteq> dom table"
  by (induction "text" arbitrary: codes) (auto split: option.splits sum.splits)

lemma make_table_leaf_dom: "is_leaf root \<Longrightarrow> dom (make_table root) = {letter root}"
  by (cases root) (auto simp: make_table_def split: if_splits)

lemma encode_root_inner:
  assumes "lookup_all (make_table root) text = Inr codes" "2 \<le> card (set text)"
  shows "\<not> is_leaf root"
proof
  assume "is_leaf root"
  then have "set text \<subseteq> {letter root}"
    using lookup_all_dom [OF assms(1)] make_table_leaf_dom by simp
  then have "card (set text) \<le> card {letter root}" by (intro card_mono) auto
  with assms(2) show False by simp
qed

lemma decode_encode:
  assumes "encode text = Inr (code, tree)" "2 \<le> card (set text)"
  shows "decode code tree = Inr text"
proof -
  from assms(1) obtain codes where
    l: "lookup_all (make_table tree) text = Inr codes" and code: "code = concat codes"
    by (auto simp: encode_def split: sum.splits)
  from l assms(2) have "\<not> is_leaf tree" by (rule encode_root_inner)
  with l code show ?thesis
    using decode_loop_lookup_all [of tree "text" codes "[]"] by (simp add: decode_def)
qed

section \<open>Serialisation lemmas\<close>



lemma is_leaf_cn_tfc [simp]: "is_leaf_cn (tree_for_compression n) = is_leaf n"
  by (cases n) (auto simp: is_leaf_cn_def is_leaf_def split: option.splits)

lemma cleft_tfc: "cleft (tree_for_compression n) = map_option tree_for_compression (left n)"
  by (cases n) (auto split: option.splits)
lemma cright_tfc: "cright (tree_for_compression n) = map_option tree_for_compression (right n)"
  by (cases n) (auto split: option.splits)
lemma cletter_tfc: "cletter (tree_for_compression n) = JStr [letter n]"
  by (cases n) auto

lemma decode_loop_cn_tfc:
  "decode_loop_cn (tree_for_compression tree) (tree_for_compression n) code (map (\<lambda>c. JStr [c]) result)
     = map_sum id (map (\<lambda>c. JStr [c])) (decode_loop tree n code result)"
proof (induction code arbitrary: n result)
  case Nil
  then show ?case by simp
next
  case (Cons c cs)
  show ?case
    using Cons.IH [of tree "result @ [letter (the (left n))]"] 
       Cons.IH [of tree "result @ [letter (the (right n))]"] 
       Cons.IH [of "the (left n)" result]  Cons.IH [of "the (right n)" result]
    by (auto simp: cleft_tfc cright_tfc cletter_tfc split: option.splits)
qed

lemma join_chars: "join (map (\<lambda>c. JStr [c]) s) = Inr s"
  by (induction s) auto

lemma decode_cn_tfc: "decode_cn code (tree_for_compression tree) = decode code tree"
proof -
  have "decode_loop_cn (tree_for_compression tree) (tree_for_compression tree) code []
     = map_sum id (map (\<lambda>c. JStr [c])) (decode_loop tree tree code [])"
    using decode_loop_cn_tfc [of tree tree code "[]"] by simp
  then show ?thesis
    by (cases "decode_loop tree tree code []") (auto simp: decode_cn_def decode_def join_chars)
qed

lemma list_to_tree_dump: "list_to_tree (json_dump t) = Inr t"
proof (induction t)
  case (CompressNode l a b)
  have a: "a = Some x \<Longrightarrow> list_to_tree (json_dump x) = Inr x" for x
    using CompressNode.IH(1) by simp
  have b: "b = Some x \<Longrightarrow> list_to_tree (json_dump x) = Inr x" for x
    using CompressNode.IH(2) by simp
  have t: "truthy (json_dump x)" for x by (cases x) simp
  show ?case
    by (subst list_to_tree.simps) (auto simp: a b t split: option.splits)
qed


section \<open>The heap operations on a forest\<close>

text \<open>
  On a list whose nodes are pairwise comparable no comparison raises, every index used is
  in range, and each heapq operation returns a list with the same nodes.
\<close>

lemma comparable_subset: "comparable S \<Longrightarrow> T \<subseteq> S \<Longrightarrow> comparable T"
  unfolding comparable_def by blast

lemma comparableD: "comparable S \<Longrightarrow> x \<in> S \<Longrightarrow> y \<in> S \<Longrightarrow> \<exists>b. node_lt x y = Inr b"
  unfolding comparable_def by blast

lemma mset_hole:
  assumes "i < length xs" "j < length xs"
  shows "mset (xs[j := xs ! i, i := v]) = mset (xs[j := v])"
proof (cases "i = j")
  case True
  then show ?thesis by simp
next
  case False
  with assms show ?thesis
    by (simp add: mset_update nth_list_update in_set_conv_nth) 
qed

lemma siftdown_loop_ok:
  "pos < length heap \<Longrightarrow> comparable (insert newitem (set heap)) \<Longrightarrow>
   \<exists>h. siftdown_loop heap startpos pos newitem = Inr h \<and> mset h = mset (heap[pos := newitem])"
proof (induction heap startpos pos newitem rule: siftdown_loop.induct)
  case (1 heap startpos pos newitem)
  let ?pp = "(pos - 1) div 2"
  show ?case
  proof (cases "pos > startpos")
    case False
    then show ?thesis by (subst siftdown_loop.simps) simp
  next
    case True
    then have pp: "?pp < pos" by auto
    with "1.prems"(1) have ppl: "?pp < length heap" by simp
    then have "heap ! ?pp \<in> set heap" by simp
    with "1.prems"(2) obtain b where b: "node_lt newitem (heap ! ?pp) = Inr b"
      by (meson comparableD insertI1 insertI2)
    show ?thesis
    proof (cases b)
      case False
      with True b show ?thesis by (subst siftdown_loop.simps) simp
    next
      case bt: True
      have sub: "insert newitem (set (heap[pos := heap ! ?pp])) \<subseteq> insert newitem (set heap)"
        using ppl set_update_subset_insert [of heap pos "heap ! ?pp"] by auto
      have "\<exists>h. siftdown_loop (heap[pos := heap ! ?pp]) startpos ?pp newitem = Inr h \<and>
           mset h = mset (heap[pos := heap ! ?pp, ?pp := newitem])"
        using "1.IH" [OF True b bt] ppl comparable_subset [OF "1.prems"(2) sub] by simp
      then show ?thesis
        using True b bt mset_hole [OF ppl "1.prems"(1)]
        by (subst siftdown_loop.simps) simp
    qed
  qed
qed

lemma siftup_loop_ok:
  "pos < length heap \<Longrightarrow> pos < childpos \<Longrightarrow> comparable (set heap) \<Longrightarrow>
   \<exists>h p. siftup_loop heap pos childpos = Inr (h, p) \<and> p < length h \<and> set h \<subseteq> set heap
      \<and> (\<forall>v. mset (h[p := v]) = mset (heap[pos := v]))"
proof (induction heap pos childpos rule: siftup_loop.induct)
  case (1 heap pos childpos)
  show ?case
  proof (cases "childpos < length heap")
    case False
    with "1.prems" show ?thesis by (subst siftup_loop.simps) simp
  next
    case True
    define r where "r = (if childpos + 1 < length heap
               then (case node_lt (heap ! childpos) (heap ! (childpos + 1)) of
                       Inl e \<Rightarrow> Inl e | Inr b \<Rightarrow> Inr (\<not> b))
               else Inr False)"
    have "\<exists>g. r = Inr g"
    proof (cases "childpos + 1 < length heap")
      case False
      then show ?thesis by (auto simp: r_def)
    next
      case t: True
      then obtain b where "node_lt (heap ! childpos) (heap ! (childpos + 1)) = Inr b"
        using comparableD [OF "1.prems"(3), of "heap ! childpos" "heap ! (childpos + 1)"] True
        by auto
      with t show ?thesis by (simp add: r_def)
    qed
    then obtain g where g: "r = Inr g" by blast
    define c where "c = (if g then childpos + 1 else childpos)"
    have cl: "c < length heap" using g True by (auto simp: c_def r_def split: if_splits)
    have pc: "pos < c" using "1.prems"(2) by (simp add: c_def)
    have unf: "siftup_loop heap pos childpos = siftup_loop (heap[pos := heap ! c]) c (2 * c + 1)"
      using True g unfolding r_def c_def
      by (subst siftup_loop.simps) (auto split: sum.splits if_splits)
    have sub: "set (heap[pos := heap ! c]) \<subseteq> set heap"
      using cl set_update_subset_insert [of heap pos "heap ! c"] by auto
    have ih: "\<exists>h p. siftup_loop (heap[pos := heap ! c]) c (2 * c + 1) = Inr (h, p) \<and> p < length h
        \<and> set h \<subseteq> set (heap[pos := heap ! c])
        \<and> (\<forall>v. mset (h[p := v]) = mset (heap[pos := heap ! c, c := v]))"
    proof (cases g)
      case True
      with "1.IH"(1) [OF \<open>childpos < length heap\<close> g [unfolded r_def]] cl
        comparable_subset [OF "1.prems"(3) sub]
      show ?thesis by (simp add: c_def)
    next
      case False
      with "1.IH"(2) [OF \<open>childpos < length heap\<close> g [unfolded r_def]] cl
        comparable_subset [OF "1.prems"(3) sub]
      show ?thesis by (simp add: c_def)
    qed
    then obtain h p where hp: "siftup_loop (heap[pos := heap ! c]) c (2 * c + 1) = Inr (h, p)"
      "p < length h" "set h \<subseteq> set (heap[pos := heap ! c])"
      "\<And>v. mset (h[p := v]) = mset (heap[pos := heap ! c, c := v])" by blast
    have "mset (h[p := v]) = mset (heap[pos := v])" for v
      using hp(4) [of v] mset_hole [OF cl "1.prems"(1), of v] by simp
    with hp sub unf show ?thesis by auto
  qed
qed

lemma siftup_ok:
  assumes "pos < length heap" "comparable (set heap)"
  shows "\<exists>h. siftup heap pos = Inr h \<and> mset h = mset heap"
proof -
  from siftup_loop_ok [OF assms(1) _ assms(2), of "2 * pos + 1"]
  obtain h p where hp: "siftup_loop heap pos (2 * pos + 1) = Inr (h, p)" "p < length h"
    "set h \<subseteq> set heap" "\<And>v. mset (h[p := v]) = mset (heap[pos := v])" by auto
  let ?x = "heap ! pos"
  have x: "?x \<in> set heap" using assms(1) by simp
  have "set (h[p := ?x]) \<subseteq> insert ?x (set h)" by (rule set_update_subset_insert)
  with hp(3) x have "insert ?x (set (h[p := ?x])) \<subseteq> set heap" by auto
  then have "comparable (insert ?x (set (h[p := ?x])))"
    using assms(2) comparable_subset by blast
  from siftdown_loop_ok [OF _ this, of p pos] hp(2)
  obtain h' where h': "siftdown_loop (h[p := ?x]) pos p ?x = Inr h'"
    "mset h' = mset (h[p := ?x, p := ?x])" by auto
  from h'(2) hp(4) [of ?x] have "mset h' = mset heap" by simp
  with h'(1) hp(1,2) assms(1) show ?thesis by (simp add: siftup_def siftdown_def)
qed

lemma heappush_ok:
  assumes "comparable (insert item (set heap))"
  shows "\<exists>h. heappush heap item = Inr h \<and> mset h = add_mset item (mset heap)"
proof -
  have "comparable (insert item (set (heap @ [item])))" using assms by simp
  from siftdown_loop_ok [OF _ this, of "length heap" 0]
  show ?thesis by (auto simp: heappush_def siftdown_def)
qed

lemma heappop_ok:
  assumes "heap \<noteq> []" "comparable (set heap)"
  shows "\<exists>x h. heappop heap = Inr (x, h) \<and> mset heap = add_mset x (mset h)"
proof (cases heap rule: rev_cases)
  case Nil
  with assms show ?thesis by simp
next
  case (snoc ys y)
  show ?thesis
  proof (cases "ys = []")
    case True
    with snoc show ?thesis by (simp add: heappop_def)
  next
    case False
    then have l: "0 < length ys" by simp
    have "set (ys[0 := y]) \<subseteq> insert y (set ys)" by (rule set_update_subset_insert)
    then have "set (ys[0 := y]) \<subseteq> set heap" using snoc by auto
    then have "comparable (set (ys[0 := y]))" using assms(2) comparable_subset by blast
    from siftup_ok [OF _ this, of 0] l obtain h where
      h: "siftup (ys[0 := y]) 0 = Inr h" "mset h = mset (ys[0 := y])" by auto
    from False have hd: "hd (ys @ [y]) = hd ys" "ys ! 0 = hd ys" "hd ys \<in># mset ys"
      by (auto simp: hd_conv_nth nth_append)
    from h(2) l hd have "add_mset (hd ys) (mset h) = add_mset y (mset ys)"
      by (simp add: mset_update)
    with h(1) snoc False hd show ?thesis by (simp add: heappop_def nth_append)
  qed
qed

lemma heapify_loop_ok:
  "comparable (set x) \<Longrightarrow> \<forall>i\<in>set idx. i < length x \<Longrightarrow>
   \<exists>h. heapify_loop x idx = Inr h \<and> mset h = mset x"
proof (induction idx arbitrary: x)
  case Nil
  then show ?case by simp
next
  case (Cons i idx)
  from siftup_ok [of i x] Cons.prems obtain h where
    h: "siftup x i = Inr h" "mset h = mset x" by auto
  from h(2) have "set h = set x" "length h = length x"
    by (auto dest: mset_eq_setD mset_eq_length)
  with Cons.IH [of h] Cons.prems obtain h' where
    "heapify_loop h idx = Inr h'" "mset h' = mset h" by auto
  with h show ?case by simp
qed

lemma heapify_ok:
  assumes "comparable (set x)"
  shows "\<exists>h. heapify x = Inr h \<and> mset h = mset x"
  unfolding heapify_def by (rule heapify_loop_ok [OF assms]) auto

section \<open>encode returns\<close>

text \<open>
  The heap of \<^verbatim>\<open>make_tree\<close> stays a forest, so no comparison meets \<open>None\<close>; the
  root carries every letter of the text, so no table lookup fails. A text without the
  character \<^verbatim>\<open>'\0'\<close> starts from a forest.
\<close>

lemma map_fst_leaf_codes: "map fst (leaf_codes t path) = leaf_letters t"
  by (induction t path rule: leaf_codes.induct) simp_all

lemma leaf_letters_nonempty: "proper x \<Longrightarrow> leaf_letters (Some x) \<noteq> []"
  by (induction x rule: proper.induct) (simp_all add: is_leaf_def)

lemma node_lt_ok:
  "proper x \<Longrightarrow> proper y \<Longrightarrow>
   set (leaf_letters (Some x)) \<inter> set (leaf_letters (Some y)) = {} \<Longrightarrow> \<exists>b. node_lt x y = Inr b"
proof (induction x arbitrary: y rule: proper.induct)
  case (1 c l)
  obtain c2 l2 a2 b2 where y: "y = Node c2 l2 a2 b2" by (cases y)
  show ?case
  proof (cases "c = c2 \<and> l = l2")
    case False
    with y show ?thesis by auto
  next
    case True
    with 1 y have "a2 = None \<and> b2 = None"
      by (cases a2; cases b2) auto
    with True 1 y show ?thesis by (simp add: is_leaf_def)
  qed
next
  case (2 c l xl xr)
  obtain c2 l2 a2 b2 where y: "y = Node c2 l2 a2 b2" by (cases y)
  show ?case
  proof (cases "c = c2 \<and> l = l2")
    case False
    with y show ?thesis by auto
  next
    case True
    with 2 y obtain yl yr where c: "a2 = Some yl" "b2 = Some yr"
      by (cases a2; cases b2) auto
    from "2.prems" y c have p: "proper xl" "proper yl" by auto
    from "2.prems"(3) y c have d:
      "set (leaf_letters (Some xl)) \<inter> set (leaf_letters (Some yl)) = {}"
      by (auto simp: is_leaf_def)
    have "xl \<noteq> yl"
    proof
      assume "xl = yl"
      with d have "leaf_letters (Some xl) = []" by auto
      with p(1) show False using leaf_letters_nonempty by blast
    qed
    with "2.IH"(1) [OF p d] True y c show ?thesis by simp
  qed
qed simp_all

lemma node_lt_refl: "node_lt x x = Inr False"
  by (cases x) simp

lemma forest_comparable: "forest_ok H \<Longrightarrow> comparable (set H)"
  unfolding comparable_def forest_ok_def
  by (metis node_lt_ok node_lt_refl)

lemma forest_ok_mset: "mset H = mset H' \<Longrightarrow> forest_ok H \<Longrightarrow> forest_ok H'"
  unfolding forest_ok_def
  using mset_eq_imp_distinct_iff mset_eq_setD by metis

lemma forest_ok_tl: "forest_ok (x # H) \<Longrightarrow> forest_ok H"
  unfolding forest_ok_def by auto

lemma forest_merge:
  assumes "forest_ok (l # r # H)"
  shows "forest_ok (Node c (CHR 0x00) (Some l) (Some r) # H)"
proof -
  let ?n = "Node c (CHR 0x00) (Some l) (Some r)"
  let ?L = "\<lambda>x. set (leaf_letters (Some x))"
  from assms have d: "distinct H" "l \<notin> set H" "r \<notin> set H" "l \<noteq> r"
    and p: "proper l" "proper r" "\<forall>x\<in>set H. proper x"
    and dl: "\<forall>y\<in>set H. ?L l \<inter> ?L y = {}" and dr: "\<forall>y\<in>set H. ?L r \<inter> ?L y = {}"
    and dH: "\<forall>x\<in>set H. \<forall>y\<in>set H. x \<noteq> y \<longrightarrow> ?L x \<inter> ?L y = {}"
    unfolding forest_ok_def by auto
  have L: "?L ?n = ?L l \<union> ?L r" by (simp add: is_leaf_def)
  have nH: "\<forall>y\<in>set H. ?L ?n \<inter> ?L y = {}" using dl dr L by auto
  have "?L ?n \<noteq> {}" using L leaf_letters_nonempty [OF p(1)] by auto
  with nH have "?n \<notin> set H" by auto
  moreover have "proper ?n" using p by simp
  ultimately show ?thesis
    unfolding forest_ok_def using d p nH dH by (auto simp: Int_commute)
qed

lemma forest_letters_mset: "mset H = mset H' \<Longrightarrow> forest_letters H = forest_letters H'"
  unfolding forest_letters_def by (auto dest: mset_eq_setD)

lemma make_tree_ok:
  "forest_ok H \<Longrightarrow> H \<noteq> [] \<Longrightarrow>
   \<exists>root. make_tree H = Inr root \<and> proper root \<and> set (leaf_letters (Some root)) = forest_letters H"
proof (induction "length H" arbitrary: H rule: less_induct)
  case less
  from heappop_ok [OF less.prems(2) forest_comparable [OF less.prems(1)]]
  obtain l h1 where p1: "heappop H = Inr (l, h1)" "mset H = add_mset l (mset h1)" by blast
  from p1(2) have m1: "mset (l # h1) = mset H" by simp
  have f1: "forest_ok (l # h1)" using forest_ok_mset [OF m1 [symmetric] less.prems(1)] .
  show ?case
  proof (cases "length H > 1")
    case False
    with less.prems(2) have "length H = 1" by (cases H) auto
    with m1 have "h1 = []" using mset_eq_length [OF m1] by simp
    with f1 forest_letters_mset [OF m1] p1(1) False show ?thesis
      by (subst make_tree.simps) (simp add: forest_ok_def forest_letters_def)
  next
    case True
    with mset_eq_length [OF m1] have ne1: "h1 \<noteq> []" by auto
    from heappop_ok [OF ne1 forest_comparable [OF forest_ok_tl [OF f1]]]
    obtain r h2 where p2: "heappop h1 = Inr (r, h2)" "mset h1 = add_mset r (mset h2)" by blast
    let ?n = "Node (node_count l + node_count r) (CHR 0x00) (Some l) (Some r)"
    from p1(2) p2(2) have m2: "mset (l # r # h2) = mset H" by simp
    have f2: "forest_ok (l # r # h2)" using forest_ok_mset [OF m2 [symmetric] less.prems(1)] .
    have f3: "forest_ok (?n # h2)" using f2 by (rule forest_merge)
    from forest_comparable [OF f3] have "comparable (insert ?n (set h2))" by simp
    from heappush_ok [OF this] obtain h3 where
      p3: "heappush h2 ?n = Inr h3" "mset h3 = add_mset ?n (mset h2)" by blast
    from p3(2) have m3: "mset (?n # h2) = mset h3" by simp
    have f4: "forest_ok h3" using forest_ok_mset [OF m3 f3] .
    have len: "length h3 < length H"
      using mset_eq_length [OF m3] mset_eq_length [OF m2] by simp
    have ne3: "h3 \<noteq> []" using mset_eq_length [OF m3] by auto
    from less.hyps [OF len f4 ne3] obtain root where
      root: "make_tree h3 = Inr root" "proper root"
        "set (leaf_letters (Some root)) = forest_letters h3" by blast
    have "forest_letters h3 = forest_letters (?n # h2)"
      using forest_letters_mset [OF m3] by simp
    also have "\<dots> = forest_letters (l # r # h2)"
      by (auto simp: forest_letters_def is_leaf_def)
    also have "\<dots> = forest_letters H" using forest_letters_mset [OF m2] .
    finally have "forest_letters h3 = forest_letters H" .
    with root True p1(1) p2(1) p3(1) show ?thesis
      by (subst make_tree.simps) simp
  qed
qed

lemma count_elem_keys:
  "map fst (count_elem x kvs) = (if x \<in> fst ` set kvs then map fst kvs else map fst kvs @ [x])"
proof (induction x kvs rule: count_elem.induct)
  case (1 x)
  then show ?case by simp
next
  case (2 x k v kvs)
  then show ?case by (cases "k = x") auto
qed

lemma Counter_fold_keys:
  "distinct (map fst acc) \<Longrightarrow>
   distinct (map fst (foldl (\<lambda>c x. count_elem x c) acc s)) \<and>
   set (map fst (foldl (\<lambda>c x. count_elem x c) acc s)) = set (map fst acc) \<union> set s"
proof (induction s arbitrary: acc)
  case Nil
  then show ?case by simp
next
  case (Cons x xs)
  have "distinct (map fst (count_elem x acc))"
    using Cons.prems by (simp add: count_elem_keys)
  from Cons.IH [OF this] show ?case by (auto simp: count_elem_keys)
qed

lemma Counter_keys: "distinct (map fst (Counter s))" "set (map fst (Counter s)) = set s"
  using Counter_fold_keys [of "[]" s] by (simp_all add: Counter_def)

lemma dom_make_table: "dom (make_table root) = set (leaf_letters (Some root))"
proof -
  have "dom (make_table root) = fst ` set (leaf_codes (Some root) [])"
    by (simp add: make_table_def make_table_recursive_eq dom_map_of_conv_image_fst)
  also have "\<dots> = set (map fst (leaf_codes (Some root) []))" by simp
  finally show ?thesis by (simp only: map_fst_leaf_codes)
qed

lemma lookup_all_ok: "set s \<subseteq> dom table \<Longrightarrow> \<exists>codes. lookup_all table s = Inr codes"
  by (induction s) auto

lemma leaves_forest:
  assumes "CHR 0x00 \<notin> set s"
  defines "leaves \<equiv> map (\<lambda>(letter, count). Node count letter None None) (Counter s)"
  shows "forest_ok leaves" "forest_letters leaves = set s" "s \<noteq> [] \<Longrightarrow> leaves \<noteq> []"
proof -
  have ml: "map letter leaves = map fst (Counter s)"
    by (simp add: leaves_def case_prod_unfold comp_def)
  have d: "distinct (map letter leaves)" by (simp only: ml Counter_keys)
  then have dl: "distinct leaves" and inj: "inj_on letter (set leaves)"
    by (simp_all add: distinct_map)
  have leaf: "\<exists>c l. x = Node c l None None \<and> l \<in> set s" if "x \<in> set leaves" for x
  proof -
    from that obtain l c where "(l, c) \<in> set (Counter s)" "x = Node c l None None"
      by (auto simp: leaves_def)
    moreover from this have "l \<in> set (map fst (Counter s))" by force
    then have "l \<in> set s" by (simp only: Counter_keys)
    ultimately show ?thesis by blast
  qed
  have p: "proper x" if "x \<in> set leaves" for x
    using leaf [OF that] assms(1) by auto
  have ll: "set (leaf_letters (Some x)) = {letter x}" if "x \<in> set leaves" for x
    using leaf [OF that] by (auto simp: is_leaf_def)
  have dj: "set (leaf_letters (Some x)) \<inter> set (leaf_letters (Some y)) = {}"
    if "x \<in> set leaves" "y \<in> set leaves" "x \<noteq> y" for x y
    using that inj ll by (auto dest: inj_onD)
  show "forest_ok leaves" unfolding forest_ok_def using dl p dj by blast
  have "forest_letters leaves = letter ` set leaves"
    unfolding forest_letters_def using ll by auto
  also have "\<dots> = set (map letter leaves)" by simp
  also have "\<dots> = set s" by (simp only: ml Counter_keys)
  finally show "forest_letters leaves = set s" .
  then show "leaves \<noteq> []" if "s \<noteq> []"
    using that by (auto simp: forest_letters_def)
qed

lemma encode_returns:
  assumes "s \<noteq> []" "CHR 0x00 \<notin> set s"
  shows "\<exists>code tree. encode s = Inr (code, tree)"
proof -
  let ?leaves = "map (\<lambda>(letter, count). Node count letter None None) (Counter s)"
  note lf = leaves_forest [OF assms(2)]
  from heapify_ok [OF forest_comparable [OF lf(1)]] obtain heap where
    h: "heapify ?leaves = Inr heap" "mset heap = mset ?leaves" by blast
  have fh: "forest_ok heap" using forest_ok_mset [OF h(2) [symmetric] lf(1)] .
  have ne: "heap \<noteq> []" using lf(3) [OF assms(1)] mset_eq_length [OF h(2)] by auto
  from make_tree_ok [OF fh ne] obtain root where
    r: "make_tree heap = Inr root" "set (leaf_letters (Some root)) = forest_letters heap" by blast
  have "forest_letters heap = set s"
    using forest_letters_mset [OF h(2)] lf(2) by simp
  with r(2) have "set s \<subseteq> dom (make_table root)" by (simp add: dom_make_table)
  from lookup_all_ok [OF this] obtain codes where "lookup_all (make_table root) s = Inr codes" ..
  with h(1) r(1) show ?thesis by (simp add: encode_def)
qed

lemma encode_decode_total:
  assumes "2 \<le> card (set s)" "CHR 0x00 \<notin> set s"
  shows "\<exists>code tree. encode s = Inr (code, tree) \<and> decode code tree = Inr s"
proof -
  from assms(1) have "s \<noteq> []" by auto
  from encode_returns [OF this assms(2)] obtain code tree where "encode s = Inr (code, tree)"
    by blast
  with decode_encode [OF this assms(1)] show ?thesis by blast
qed

text \<open>
  A leaf with the letter \<^verbatim>\<open>'\0'\<close> is not told apart from an inner node by count and
  letter: for the text of two \<^verbatim>\<open>'\0'\<close>, \<^verbatim>\<open>a\<close> and \<^verbatim>\<open>b\<close> the push of the first
  parent compares its left child with \<open>None\<close>.
\<close>

lemma encode_nul_TypeError:
  "encode [CHR 0x00, CHR 0x00, CHR ''a'', CHR ''b''] = Inl TypeError"
  by code_simp

section \<open>Texts with one distinct symbol\<close>

text \<open>
  For a text of one repeated symbol the heap holds one leaf, which \<^verbatim>\<open>make_tree\<close>
  returns; its path is the empty string, so the code of the whole text is empty.
\<close>

lemma Counter_fold_single:
  "set s \<subseteq> {a} \<Longrightarrow> foldl (\<lambda>c x. count_elem x c) [(a, k)] s = [(a, k + int (length s))]"
  by (induction s arbitrary: k) auto

lemma Counter_single:
  assumes "s \<noteq> []" "set s = {a}"
  shows "Counter s = [(a, int (length s))]"
proof -
  from assms obtain s' where s: "s = a # s'" "set s' \<subseteq> {a}" by (cases s) auto
  then show ?thesis using Counter_fold_single [OF s(2), of 1] by (simp add: Counter_def)
qed

lemma lookup_all_single:
  "set s \<subseteq> {a} \<Longrightarrow> lookup_all [a \<mapsto> c] s = Inr (replicate (length s) c)"
  by (induction s) auto

lemma encode_single_symbol:
  assumes "s \<noteq> []" "set s = {a}"
  shows "encode s = Inr ([], Node (int (length s)) a None None)"
proof -
  let ?n = "Node (int (length s)) a None None"
  have h: "heapify [?n] = Inr [?n]" by (simp add: heapify_def)
  have p: "heappop [?n] = Inr (?n, [])" by (simp add: heappop_def)
  have t: "make_tree [?n] = Inr ?n" by (subst make_tree.simps) (simp add: p)
  have m: "make_table ?n = [a \<mapsto> []]" by (simp add: make_table_def is_leaf_def)
  have l: "lookup_all [a \<mapsto> []] s = Inr (replicate (length s) [])"
    using assms(2) by (intro lookup_all_single) simp
  show ?thesis
    by (simp add: encode_def Counter_single [OF assms] h t m l)
qed

section \<open>The packed code\<close>

text \<open>
  The code is a string of binary digits. When its length is not a multiple of 8,
  \<^verbatim>\<open>encode_to_files\<close> writes the prefix length, the value of the prefix and the values
  of the 8-bit groups, and \<^verbatim>\<open>decode_from_files\<close> reads the code and the text back.
  When it is a multiple of 8, \<^verbatim>\<open>int('', 2)\<close> raises ValueError.
\<close>

lemma int2_bits: "is_bits s \<Longrightarrow> s \<noteq> [] \<Longrightarrow> int2 s = Inr (bits_value s)"
  by (auto simp: int2_def is_bits_def bits_value_def list_all_iff list_ex_iff)

lemma int2_empty: "int2 [] = Inl ValueError"
  by (simp add: int2_def)

lemma foldl_bits_bound:
  "Suc (foldl (\<lambda>v c. 2 * v + (if c = CHR ''1'' then 1 else 0)) v s) \<le> 2 ^ length s * Suc v"
proof (induction s arbitrary: v)
  case Nil
  then show ?case by simp
next
  case (Cons c s)
  have "Suc (foldl (\<lambda>v c. 2 * v + (if c = CHR ''1'' then 1 else 0)) (2 * v + (if c = CHR ''1'' then 1 else 0)) s)
      \<le> 2 ^ length s * Suc (2 * v + (if c = CHR ''1'' then 1 else 0))" by (rule Cons.IH)
  also have "\<dots> \<le> 2 ^ length s * (2 * Suc v)" by (intro mult_le_mono2) simp
  finally show ?case by (simp add: mult.assoc)
qed

lemma bits_value_bound: "bits_value s < 2 ^ length s"
  using foldl_bits_bound [of 0 s] by (simp add: bits_value_def)

lemma bits_value_byte: "length s \<le> 8 \<Longrightarrow> bits_value s < 256"
proof -
  assume "length s \<le> 8"
  then have "(2::nat) ^ length s \<le> 2 ^ 8" by (intro power_increasing) simp_all
  with bits_value_bound [of s] show ?thesis by simp
qed

lemma is_bits_take_drop: "is_bits s \<Longrightarrow> is_bits (take n s)" "is_bits s \<Longrightarrow> is_bits (drop n s)"
  by (auto simp: is_bits_def list_all_iff dest: in_set_takeD in_set_dropD)

lemma is_bits_slice: "is_bits s \<Longrightarrow> is_bits (slice_between s a b)"
  by (simp add: slice_between_def is_bits_take_drop)

lemma pack_loop_ok:
  "is_bits code \<Longrightarrow> \<forall>i\<in>set idx. p + 8 * i < length code \<Longrightarrow>
   pack_loop code p idx = Inr (map (\<lambda>i. bits_value (slice_between code (p + 8 * i) (p + 8 * (i + 1)))) idx)"
proof (induction idx)
  case Nil
  then show ?case by simp
next
  case (Cons i idx)
  have "slice_between code (p + 8 * i) (p + 8 * (i + 1)) \<noteq> []"
    using Cons.prems(2) by (simp add: slice_between_def)
  with Cons show ?case by (simp add: int2_bits is_bits_slice)
qed

lemma leaf_codes_bits:
  "(l, c) \<in> set (leaf_codes t path) \<Longrightarrow> is_bits path \<Longrightarrow> is_bits c"
proof (induction t path rule: leaf_codes.induct)
  case (2 c' l' a b path)
  show ?case
  proof (cases "is_leaf (Node c' l' a b)")
    case True
    with 2 show ?thesis by simp
  next
    case False
    have b0: "is_bits (path @ ''0'')" and b1: "is_bits (path @ ''1'')"
      using "2.prems"(2) by (simp_all add: is_bits_def)
    from False "2.prems"(1) have
      "(l, c) \<in> set (leaf_codes a (path @ ''0'')) \<or> (l, c) \<in> set (leaf_codes b (path @ ''1''))"
      by simp
    then show ?thesis using "2.IH" False b0 b1 by blast
  qed
qed simp

lemma lookup_all_bits:
  "lookup_all (make_table root) s = Inr codes \<Longrightarrow> is_bits (concat codes)"
proof (induction s arbitrary: codes)
  case Nil
  then show ?case by (simp add: is_bits_def)
next
  case (Cons x xs)
  from Cons.prems obtain c cs where
    c: "make_table root x = Some c" "lookup_all (make_table root) xs = Inr cs" "codes = c # cs"
    by (auto split: option.splits sum.splits)
  from make_table_SomeD [OF c(1)] have "is_bits c"
    by (rule leaf_codes_bits) (simp add: is_bits_def)
  with Cons.IH [OF c(2)] c(3) show ?case by (simp add: is_bits_def)
qed

lemma encode_is_bits: "encode s = Inr (code, tree) \<Longrightarrow> is_bits code"
  by (auto simp: encode_def split: sum.splits dest: lookup_all_bits)

lemma pack_loop_encode:
  assumes "is_bits code"
  shows "pack_loop code (length code mod 8) [0 ..< length code div 8] =
    Inr (map (\<lambda>i. bits_value (slice_between code (length code mod 8 + 8 * i) (length code mod 8 + 8 * (i + 1))))
          [0 ..< length code div 8])"
proof (rule pack_loop_ok [OF assms], rule ballI)
  fix i assume "i \<in> set [0 ..< length code div 8]"
  then have "Suc i \<le> length code div 8" by simp
  then have "length code mod 8 + 8 * i < length code mod 8 + 8 * (length code div 8)" by simp
  also have "\<dots> = length code" by simp
  finally show "length code mod 8 + 8 * i < length code" .
qed

lemma encode_to_files_multiple_of_8_fails:
  assumes "encode s = Inr (code, tree)" "length code mod 8 = 0"
  shows "encode_to_files s = Inl ValueError"
  using assms pack_loop_encode [OF encode_is_bits [OF assms(1)]]
  by (simp add: encode_to_files_def slice_between_def int2_empty)

lemma encode_to_files_layout:
  assumes "encode s = Inr (code, tree)" "length code mod 8 \<noteq> 0"
  shows "encode_to_files s =
    Inr (of_nat (length code mod 8) # of_nat (bits_value (take (length code mod 8) code)) #
         map (\<lambda>i. of_nat (bits_value (slice_between code (length code mod 8 + 8 * i)
                                               (length code mod 8 + 8 * (i + 1)))))
           [0 ..< length code div 8],
         json_dump (tree_for_compression tree))"
proof -
  let ?p = "length code mod 8"
  note b = encode_is_bits [OF assms(1)]
  have ne: "take ?p code \<noteq> []" using assms(2) by auto
  have i: "int2 (slice_between code 0 ?p) = Inr (bits_value (take ?p code))"
    using int2_bits [OF is_bits_take_drop(1) [OF b] ne] by (simp add: slice_between_def)
  have v: "bits_value (take ?p code) < 256"
    by (intro bits_value_byte) simp
  have "bytes ([?p, bits_value (take ?p code)] @
      map (\<lambda>i. bits_value (slice_between code (?p + 8 * i) (?p + 8 * (i + 1)))) [0 ..< length code div 8])
    = Inr (map of_nat ([?p, bits_value (take ?p code)] @
      map (\<lambda>i. bits_value (slice_between code (?p + 8 * i) (?p + 8 * (i + 1)))) [0 ..< length code div 8]))"
    unfolding bytes_def using v
    by (auto simp: list_all_iff intro!: bits_value_byte simp: slice_between_def)
  then show ?thesis
    using assms(1) pack_loop_encode [OF b] i
    by (simp add: encode_to_files_def comp_def)
qed

lemma unpack_code_prefix:
  "unpack_code (b0 # b1 # rest) =
     Inr ((if unat b0 = 0 then byte_to_bits b1 else drop (8 - unat b0) (byte_to_bits b1))
          @ concat (map byte_to_bits rest))"
  by (simp add: unpack_code_def slice_from_neg_def byte_to_bits_def)

lemma bits_value_snoc:
  "bits_value (bs @ [c]) = 2 * bits_value bs + (if c = CHR ''1'' then 1 else 0)"
  by (simp add: bits_value_def)

lemma bit_bits_value:
  "bit (bits_value bs) k \<longleftrightarrow> k < length bs \<and> bs ! (length bs - Suc k) = CHR ''1''"
proof (induction bs arbitrary: k rule: rev_induct)
  case Nil
  then show ?case by (simp add: bits_value_def)
next
  case (snoc c bs)
  show ?case
  proof (cases k)
    case 0
    then show ?thesis by (simp add: bits_value_snoc bit_0)
  next
    case (Suc k')
    have "(2 * bits_value bs + (if c = CHR ''1'' then 1 else 0)) div 2 = bits_value bs"
      by simp
    then have "bit (bits_value (bs @ [c])) (Suc k') = bit (bits_value bs) k'"
      by (simp add: bits_value_snoc bit_Suc)
    with snoc.IH [of k'] Suc show ?thesis
      by (auto simp: nth_append Suc_diff_Suc)
  qed
qed

lemma byte_to_bits_nth:
  "n < 8 \<Longrightarrow> byte_to_bits w ! n = (if bit w (7 - n) then CHR ''1'' else CHR ''0'')"
  by (simp add: byte_to_bits_def bit_iff_and_push_bit_not_eq_0 del: upt_Suc)

lemma length_byte_to_bits [simp]: "length (byte_to_bits w) = 8"
  by (simp add: byte_to_bits_def del: upt_Suc)

lemma byte_to_bits_value:
  assumes "is_bits bs" "length bs \<le> 8"
  shows "byte_to_bits (of_nat (bits_value bs)) = replicate (8 - length bs) (CHR ''0'') @ bs"
proof (rule nth_equalityI)
  show "length (byte_to_bits (of_nat (bits_value bs))) = length (replicate (8 - length bs) (CHR ''0'') @ bs)"
    using assms(2) by simp
next
  fix n assume "n < length (byte_to_bits (of_nat (bits_value bs) :: 8 word))"
  then have n: "n < 8" by simp
  have b: "bit (of_nat (bits_value bs) :: 8 word) (7 - n) \<longleftrightarrow>
      7 - n < length bs \<and> bs ! (length bs - Suc (7 - n)) = CHR ''1''"
    using n by (auto simp: bit_of_nat_iff bit_bits_value)
  show "byte_to_bits (of_nat (bits_value bs)) ! n = (replicate (8 - length bs) (CHR ''0'') @ bs) ! n"
  proof (cases "n < 8 - length bs")
    case True
    then have "\<not> 7 - n < length bs" using n by arith
    with True n b show ?thesis by (simp add: byte_to_bits_nth nth_append)
  next
    case False
    then have i: "n - (8 - length bs) < length bs" "length bs - Suc (7 - n) = n - (8 - length bs)"
      "7 - n < length bs"
      using n assms(2) by auto
    then have "bs ! (n - (8 - length bs)) \<in> set bs" by simp
    with assms(1) have "bs ! (n - (8 - length bs)) = CHR ''0'' \<or> bs ! (n - (8 - length bs)) = CHR ''1''"
      by (auto simp: is_bits_def list_all_iff)
    with False i n b show ?thesis by (auto simp: byte_to_bits_nth nth_append)
  qed
qed

lemma concat_chunks:
  "a + 8 * d \<le> length xs \<Longrightarrow>
   concat (map (\<lambda>i. slice_between xs (a + 8 * i) (a + 8 * (i + 1))) [0 ..< d]) = take (8 * d) (drop a xs)"
proof (induction d)
  case 0
  then show ?case by simp
next
  case (Suc d)
  have "take (8 * Suc d) (drop a xs) = take (8 * d) (drop a xs) @ take 8 (drop (8 * d) (drop a xs))"
    using take_add [of "8 * d" 8 "drop a xs"] by (simp add: add.commute)
  with Suc show ?case by (simp add: slice_between_def add.commute)
qed

lemma chunk_in_range: "p + 8 * d = n \<Longrightarrow> i < d \<Longrightarrow> p + 8 * i + 8 \<le> (n::nat)"
  by arith

lemma rest_in_range: "p + 8 * d = n \<Longrightarrow> n - p \<le> 8 * (d::nat)"
  by arith

lemma unpack_pack:
  assumes "encode s = Inr (code, tree)" "length code mod 8 \<noteq> 0"
  shows "\<exists>bts. encode_to_files s = Inr (bts, json_dump (tree_for_compression tree))
           \<and> unpack_code bts = Inr code"
proof -
  let ?p = "length code mod 8" and ?d = "length code div 8"
  let ?chunk = "\<lambda>i. slice_between code (?p + 8 * i) (?p + 8 * (i + 1))"
  note b = encode_is_bits [OF assms(1)]
  have p8: "?p < 8" by simp
  have len: "?p + 8 * ?d = length code" by simp
  have u: "unat (of_nat ?p :: 8 word) = ?p" using p8 by (simp add: unat_of_nat)
  have lt: "length (take ?p code) = ?p" by (simp add: min_def)
  have pre: "drop (8 - ?p) (byte_to_bits (of_nat (bits_value (take ?p code)))) = take ?p code"
    using byte_to_bits_value [OF is_bits_take_drop(1) [OF b], of ?p] p8
    by (simp only: lt) simp
  have ch: "byte_to_bits (of_nat (bits_value (?chunk i))) = ?chunk i" if "i < ?d" for i
  proof -
    have "?p + 8 * i + 8 \<le> length code" by (rule chunk_in_range [OF len that])
    then have l: "length (?chunk i) = 8" by (simp add: slice_between_def)
    from byte_to_bits_value [OF is_bits_slice [OF b], of "?p + 8 * i" "?p + 8 * (i + 1)"] l
    show ?thesis by simp
  qed
  have "concat (map (\<lambda>i. byte_to_bits (of_nat (bits_value (?chunk i)))) [0 ..< ?d])
      = concat (map ?chunk [0 ..< ?d])"
    using ch by (intro arg_cong [where f = concat] map_cong) auto
  also have "\<dots> = take (8 * ?d) (drop ?p code)"
    by (rule concat_chunks) simp
  also have "\<dots> = drop ?p code" using rest_in_range [OF len] by simp
  finally have rest: "concat (map (\<lambda>i. byte_to_bits (of_nat (bits_value (?chunk i)))) [0 ..< ?d])
      = drop ?p code" .
  show ?thesis
    using assms(2) u pre rest
    by (simp add: encode_to_files_layout [OF assms] unpack_code_prefix comp_def)
qed

lemma file_roundtrip:
  assumes "encode s = Inr (code, tree)" "length code mod 8 \<noteq> 0" "2 \<le> card (set s)"
  shows "\<exists>bts js. encode_to_files s = Inr (bts, js) \<and> decode_from_files bts js = Inr s"
proof -
  from unpack_pack [OF assms(1,2)] obtain bts where
    b: "encode_to_files s = Inr (bts, json_dump (tree_for_compression tree))"
      "unpack_code bts = Inr code" by blast
  have "decode_from_files bts (json_dump (tree_for_compression tree)) = decode code tree"
    by (simp add: decode_from_files_def list_to_tree_dump b(2) decode_cn_tfc)
  with decode_encode [OF assms(1,3)] b(1) show ?thesis by simp
qed

section \<open>Deserialising within the recursion limit\<close>






lemma list_to_tree_frames_enough:
  "list_to_tree_frames k x = Inr t \<Longrightarrow> list_to_tree x = Inr t"
proof (induction k arbitrary: x t)
  case 0
  then show ?case by simp
next
  case (Suc k)
  show ?case
    using Suc.prems Suc.IH
    by (subst list_to_tree.simps) (auto split: sum.splits if_splits)
qed

lemma json_depth_dump_cases:
  "json_depth (json_dump (CompressNode l a b)) =
     Suc (max (json_depth l) (max (case a of None \<Rightarrow> 0 | Some x \<Rightarrow> json_depth (json_dump x))
                                  (case b of None \<Rightarrow> 0 | Some x \<Rightarrow> json_depth (json_dump x))))"
  by (simp split: option.splits)




section \<open>The depth of the tree built by encode\<close>














section \<open>Properties\<close>

text \<open>
  C1. Round trip: the claim is that for every non-empty text \<open>T\<close>, decoding the code of
  \<open>T\<close> with the tree of \<open>T\<close> gives back \<open>T\<close>. For the text \<^verbatim>\<open>"aaaa"\<close> the tree
  is a single leaf, the code is the empty string, and decoding it gives the empty
  string, not \<^verbatim>\<open>"aaaa"\<close>. Lemma \<open>encode_single_symbol\<close> gives the same for
  every text of one repeated symbol; lemma \<open>encode_decode_total\<close> gives the round
  trip for every text with two distinct symbols and without \<^verbatim>\<open>'\0'\<close>.
\<close>

theorem roundtrip_single_symbol:
  "encode ''aaaa'' = Inr ([], Node 4 (CHR ''a'') None None)
   \<and> decode [] (Node 4 (CHR ''a'') None None) = Inr []"
  by code_simp

text \<open>
  C2. Packing: the claim includes that \<^verbatim>\<open>encode_to_files\<close> succeeds when the length
  of the bit sequence is a multiple of 8. The text \<^verbatim>\<open>"abababab"\<close> has the 8-bit code
  \<^verbatim>\<open>01010101\<close>; \<open>prefix_len\<close> is 0 and \<^verbatim>\<open>int('', 2)\<close> raises ValueError.
  Lemma \<open>encode_to_files_multiple_of_8_fails\<close> gives the same for every such text;
  lemma \<open>encode_to_files_layout\<close> gives the byte layout for the other texts.
\<close>

theorem encode_to_files_multiple_of_8:
  "encode ''abababab'' =
     Inr (''01010101'', Node 8 (CHR 0x00) (Some (Node 4 (CHR ''a'') None None))
                                         (Some (Node 4 (CHR ''b'') None None)))
   \<and> encode_to_files ''abababab'' = Inl ValueError"
  by code_simp

text \<open>
  C3. Unpacking: the claim is that with \<open>prefix_len = 0\<close> the first data byte
  contributes no bits. For the code file of the two bytes 0, 0 the slice
  \<^verbatim>\<open>codes[0][-0:]\<close> is the whole string: the byte contributes eight bits, and with the
  two-leaf tree of \<^verbatim>\<open>a\<close> and \<^verbatim>\<open>b\<close> they decode to eight letters. Lemma
  \<open>unpack_code_prefix\<close> gives the bits kept for every prefix length.
\<close>

theorem unpack_prefix_len_0:
  "unpack_code [0, 0] = Inr ''00000000''
   \<and> decode_from_files [0, 0]
        (JList [JStr [CHR 0x00], JList [JStr ''a'', JNull, JNull], JList [JStr ''b'', JNull, JNull]])
      = Inr ''aaaaaaaa''"
  by code_simp

text \<open>
  C4. Empty input: the claim is that \<^verbatim>\<open>encode\<close> fails with the named condition
  EmptyInput. It does not: the failure is not EmptyInput.
\<close>

theorem encode_empty_not_EmptyInput: "encode [] \<noteq> Inl EmptyInput"
  by code_simp

text \<open>
  C4, as amended. For the empty text the heap is empty, \<^verbatim>\<open>make_tree\<close> skips its loop
  and its final \<^verbatim>\<open>heappop\<close> raises IndexError, which \<^verbatim>\<open>encode\<close> lets through.
\<close>

theorem encode_empty_IndexError:
  "heappop [] = Inl IndexError \<and> make_tree [] = Inl IndexError \<and> encode [] = Inl IndexError"
  by code_simp

text \<open>
  C5. Single-symbol alphabet: the claim is that the symbol gets a code of length at least
  1. For \<^verbatim>\<open>"aaaa"\<close> the tree is a single leaf and the table maps \<^verbatim>\<open>a\<close> to the empty
  string.
\<close>

theorem single_symbol_code_empty:
  "encode ''aaaa'' = Inr ([], Node 4 (CHR ''a'') None None)
   \<and> is_leaf (Node 4 (CHR ''a'') None None)
   \<and> make_table (Node 4 (CHR ''a'') None None) (CHR ''a'') = Some []"
  by code_simp

text \<open>
  C6. Prefix-free: in the table derived by \<^verbatim>\<open>make_table\<close> from a tree built by
  \<^verbatim>\<open>make_tree\<close>, the codes of two distinct symbols are not prefixes of one another.
\<close>

theorem prefix_free:
  assumes "make_tree heap = Inr root"
    and "make_table root a = Some ca" "make_table root b = Some cb" "a \<noteq> b"
  shows "\<not> prefix ca cb \<and> \<not> prefix cb ca"
  using assms(2-4) leaf_codes_prefix_free [of a ca "Some root" "[]" b cb]
    leaf_codes_prefix_free [of b cb "Some root" "[]" a ca]
  by (auto dest!: make_table_SomeD)

theorem prefix_free_witness:
  "make_tree [Node 1 (CHR ''b'') None None, Node 2 (CHR ''a'') None None, Node 1 (CHR ''c'') None None]
     = Inr (Node 4 (CHR 0x00)
             (Some (Node 2 (CHR 0x00) (Some (Node 1 (CHR ''b'') None None))
                                      (Some (Node 1 (CHR ''c'') None None))))
             (Some (Node 2 (CHR ''a'') None None)))
   \<and> make_table (Node 4 (CHR 0x00)
             (Some (Node 2 (CHR 0x00) (Some (Node 1 (CHR ''b'') None None))
                                      (Some (Node 1 (CHR ''c'') None None))))
             (Some (Node 2 (CHR ''a'') None None))) (CHR ''a'') = Some ''1''
   \<and> make_table (Node 4 (CHR 0x00)
             (Some (Node 2 (CHR 0x00) (Some (Node 1 (CHR ''b'') None None))
                                      (Some (Node 1 (CHR ''c'') None None))))
             (Some (Node 2 (CHR ''a'') None None))) (CHR ''c'') = Some ''01''
   \<and> CHR ''a'' \<noteq> CHR ''c''
   \<and> \<not> prefix ''1'' ''01'' \<and> \<not> prefix ''01'' ''1''"
proof -
  let ?root = "Node 4 (CHR 0x00)
             (Some (Node 2 (CHR 0x00) (Some (Node 1 (CHR ''b'') None None))
                                      (Some (Node 1 (CHR ''c'') None None))))
             (Some (Node 2 (CHR ''a'') None None))"
  have t: "make_tree [Node 1 (CHR ''b'') None None, Node 2 (CHR ''a'') None None,
      Node 1 (CHR ''c'') None None] = Inr ?root"
    by code_simp
  have a: "make_table ?root (CHR ''a'') = Some ''1''"
    by (simp add: make_table_def is_leaf_def)
  have c: "make_table ?root (CHR ''c'') = Some ''01''"
    by (simp add: make_table_def is_leaf_def)
  have ne: "CHR ''a'' \<noteq> CHR ''c''" by simp
  from prefix_free [OF t a c ne] t a c ne show ?thesis by simp
qed





text \<open>
  C8. The walk of \<^verbatim>\<open>decode\<close> is safe: for a text with at least two distinct symbols,
  with \<open>(code, tree)\<close> the result of \<^verbatim>\<open>encode\<close>, \<^verbatim>\<open>decode(code, tree)\<close> returns,
  and returns the text. Stepping onto an absent child is the AttributeError branch of
  the walk, which is therefore never taken. Lemma \<open>encode_returns\<close> shows that
  \<^verbatim>\<open>encode\<close> does return for every non-empty text without \<^verbatim>\<open>'\0'\<close>.
\<close>

theorem decode_walk_safe:
  assumes "encode text = Inr (code, tree)" "2 \<le> card (set text)"
  shows "decode code tree = Inr text \<and> decode code tree \<noteq> Inl AttributeError"
  using decode_encode [OF assms] by simp

theorem decode_walk_safe_witness:
  "encode ''abracadabra'' = Inr (''01111001100011010111100'',
      Node 11 (CHR 0x00) (Some (Node 5 (CHR ''a'') None None))
       (Some (Node 6 (CHR 0x00) (Some (Node 2 (CHR ''r'') None None))
           (Some (Node 4 (CHR 0x00)
               (Some (Node 2 (CHR 0x00) (Some (Node 1 (CHR ''c'') None None))
                   (Some (Node 1 (CHR ''d'') None None))))
               (Some (Node 2 (CHR ''b'') None None)))))))
   \<and> 2 \<le> card (set ''abracadabra'')
   \<and> decode ''01111001100011010111100''
       (Node 11 (CHR 0x00) (Some (Node 5 (CHR ''a'') None None))
       (Some (Node 6 (CHR 0x00) (Some (Node 2 (CHR ''r'') None None))
           (Some (Node 4 (CHR 0x00)
               (Some (Node 2 (CHR 0x00) (Some (Node 1 (CHR ''c'') None None))
                   (Some (Node 1 (CHR ''d'') None None))))
               (Some (Node 2 (CHR ''b'') None None))))))) = Inr ''abracadabra''"
proof -
  let ?tree = "Node 11 (CHR 0x00) (Some (Node 5 (CHR ''a'') None None))
       (Some (Node 6 (CHR 0x00) (Some (Node 2 (CHR ''r'') None None))
           (Some (Node 4 (CHR 0x00)
               (Some (Node 2 (CHR 0x00) (Some (Node 1 (CHR ''c'') None None))
                   (Some (Node 1 (CHR ''d'') None None))))
               (Some (Node 2 (CHR ''b'') None None))))))"
  have e: "encode ''abracadabra'' = Inr (''01111001100011010111100'', ?tree)"
    by code_simp
  have c: "2 \<le> card (set ''abracadabra'')" by code_simp
  from decode_walk_safe [OF e c] e c show ?thesis by simp
qed

text \<open>
  C9. \<^verbatim>\<open>decode\<close> does not depend on the counts: for every bit string and every Node
  tree (so for every tree produced by \<^verbatim>\<open>encode\<close>), the tree obtained through
  \<^verbatim>\<open>tree_for_compression\<close>, \<^verbatim>\<open>json.dump\<close>, \<^verbatim>\<open>json.load\<close> and \<^verbatim>\<open>list_to_tree\<close>
  exists and decodes the bit string to the same result as the original tree, errors
  included.
\<close>

theorem decode_ignores_counts:
  "\<exists>t. list_to_tree (json_dump (tree_for_compression tree)) = Inr t
       \<and> decode_cn bits t = decode bits tree"
  by (simp add: list_to_tree_dump decode_cn_tfc)



end
